theory Spec2Isabelle
  imports Main
begin

section \<open>JavaScript values, completions and promise settlement\<close>

text \<open>
  The function under study is \<^verbatim>\<open>chain(...values)\<close>, the "synchronous,
  callback-aware version of Promise.all" of the utilities library. It tells its
  arguments apart with \<^verbatim>\<open>Array.isArray\<close>, \<^verbatim>\<open>typeof value === "function"\<close>,
  \<^verbatim>\<open>null == error\<close> and \<^verbatim>\<open>null === rejection\<close>, and everything it returns from a
  \<^verbatim>\<open>then\<close> callback goes through promise resolution, which adopts the state of a
  promise. The value type has one constructor for each kind those tests and that
  resolution tell apart; numbers and strings are opaque payloads (\<^verbatim>\<open>chain\<close> never
  computes with them).

  A call of a JavaScript function either returns a value or throws one, and may change
  the world outside \<^verbatim>\<open>chain\<close> (counters, files, the DOM). The world is the type
  parameter \<open>'w\<close>; a function value maps the world before the call to its completion
  and the world after it.

  A promise value is represented by the way it eventually settles. A promise that never
  settles is \<open>Pending\<close>. The work an asynchronous function does before its promise
  settles is counted among the effects of the call that returned the promise.
\<close>

datatype 'a completion = Normal 'a | Throw 'a

datatype 'a settled = Fulfilled 'a | Rejected 'a | Pending

datatype 'w jsval =
    JUndefined
  | JNull
  | JBool bool
  | JNum int
  | JStr string
  | JArray "'w jsval list"
  | JFunction "'w \<Rightarrow> 'w jsval completion \<times> 'w"
  | JPromise "'w jsval settled"

text \<open>\<^verbatim>\<open>"function" === typeof value\<close>\<close>

fun is_function :: "'w jsval \<Rightarrow> bool" where
  "is_function (JFunction f) = True"
| "is_function _ = False"

text \<open>\<^verbatim>\<open>null === x\<close> (strict) and \<^verbatim>\<open>null == x\<close> (loose: also true of undefined)\<close>

fun is_null :: "'w jsval \<Rightarrow> bool" where
  "is_null JNull = True"
| "is_null _ = False"

fun is_nullish :: "'w jsval \<Rightarrow> bool" where
  "is_nullish JNull = True"
| "is_nullish JUndefined = True"
| "is_nullish _ = False"

text \<open>
  Promise resolution: resolving with a promise adopts that promise's settlement, resolving
  with anything else fulfils with it.
\<close>

fun resolve :: "'w jsval \<Rightarrow> 'w jsval settled" where
  "resolve (JPromise p) = p"
| "resolve v = Fulfilled v"

text \<open>\<^verbatim>\<open>Promise.resolve(v)\<close> and \<^verbatim>\<open>Promise.reject(e)\<close> as values\<close>

definition Promise_resolve :: "'w jsval \<Rightarrow> 'w jsval" where
  "Promise_resolve v = JPromise (resolve v)"

definition Promise_reject :: "'w jsval \<Rightarrow> 'w jsval" where
  "Promise_reject e = JPromise (Rejected e)"


section \<open>The state of one run of \<open>chain\<close>\<close>

text \<open>
  \<^verbatim>\<open>let rejection = null; const results = [];\<close> are the two variables the callbacks
  close over. \<open>world\<close> is the state outside \<^verbatim>\<open>chain\<close> that the callables act on.
  \<open>calls\<close> is a trace that the source does not have: the positions (from 0) of the
  steps whose callable has been invoked, in the order of invocation. Nothing reads it.
\<close>

record 'w run =
  results :: "'w jsval list"
  rejection :: "'w jsval"
  world :: 'w
  calls :: "nat list"

text \<open>
  The promises that \<^verbatim>\<open>chain\<close> builds form one line: each has exactly one reaction,
  registered by the next \<^verbatim>\<open>then\<close> or \<^verbatim>\<open>catch\<close>, so the callbacks run one after another
  in the order of the line, and only they write the run state. A promise of the line is
  therefore modelled by its settlement together with the run state at the moment it
  settles (for a promise that never settles: the state in which the run stalls).
\<close>

type_synonym 'w promise = "'w jsval settled \<times> 'w run"

type_synonym 'w callback = "'w jsval \<Rightarrow> 'w run \<Rightarrow> 'w jsval completion \<times> 'w run"

text \<open>
  \<^verbatim>\<open>promise.then(onFulfilled)\<close>: the callback runs only when the promise fulfils; the
  new promise is resolved with what the callback returns and rejected with what it
  throws. A rejection passes through.
\<close>

definition promise_then :: "'w promise \<Rightarrow> 'w callback \<Rightarrow> 'w promise" where
  "promise_then promise onFulfilled =
    (case promise of
       (Fulfilled v, s) \<Rightarrow>
         (case onFulfilled v s of
            (Normal r, s') \<Rightarrow> (resolve r, s')
          | (Throw e, s') \<Rightarrow> (Rejected e, s'))
     | (Rejected e, s) \<Rightarrow> (Rejected e, s)
     | (Pending, s) \<Rightarrow> (Pending, s))"

text \<open>
  \<^verbatim>\<open>promise.catch(onRejected)\<close>: the callback runs only when the promise rejects; a
  fulfilment passes through.
\<close>

definition promise_catch :: "'w promise \<Rightarrow> 'w callback \<Rightarrow> 'w promise" where
  "promise_catch promise onRejected =
    (case promise of
       (Fulfilled v, s) \<Rightarrow> (Fulfilled v, s)
     | (Rejected e, s) \<Rightarrow>
         (case onRejected e s of
            (Normal r, s') \<Rightarrow> (resolve r, s')
          | (Throw e', s') \<Rightarrow> (Rejected e', s'))
     | (Pending, s) \<Rightarrow> (Pending, s))"


section \<open>\<open>chain\<close>\<close>

text \<open>
  \<^verbatim>\<open>
  result => {
      results.push(result);
      return "function" === typeof value ? value() : value;
  }
  \<close>
  \<open>i\<close> is the position of the step \<open>val\<close>, used for the trace only.
\<close>

definition on_result :: "nat \<Rightarrow> 'w jsval \<Rightarrow> 'w callback" where
  "on_result i val result s =
    (let s1 = s\<lparr>results := results s @ [result]\<rparr> in
     case val of
       JFunction f \<Rightarrow>
         (case f (world s1) of
            (c, w') \<Rightarrow> (c, s1\<lparr>world := w', calls := calls s1 @ [i]\<rparr>))
     | _ \<Rightarrow> (Normal val, s1))"

text \<open>
  \<^verbatim>\<open>
  error => {
      if(null === rejection)
          rejection = null == error ? true : error;
      return Promise.reject(error);
  }
  \<close>
\<close>

definition on_error :: "'w callback" where
  "on_error error s =
    (let s1 = (if is_null (rejection s)
               then s\<lparr>rejection := (if is_nullish error then JBool True else error)\<rparr>
               else s)
     in (Normal (Promise_reject error), s1))"

text \<open>
  \<^verbatim>\<open>
  result => {
      results.push(result);
      results.shift();
      return null !== rejection
          ? Promise.reject(rejection)
          : Promise.resolve(results);
  }
  \<close>
\<close>

definition on_final :: "'w callback" where
  "on_final result s =
    (let s1 = s\<lparr>results := results s @ [result]\<rparr>;
         s2 = s1\<lparr>results := tl (results s1)\<rparr>
     in (Normal (if \<not> is_null (rejection s2)
                 then Promise_reject (rejection s2)
                 else Promise_resolve (JArray (results s2))), s2))"

text \<open>
  \<^verbatim>\<open>
  if(1 === values.length && Array.isArray(values[0]))
      values = [...values[0]];
  \<close>
\<close>

fun arg_values :: "'w jsval list \<Rightarrow> 'w jsval list" where
  "arg_values [JArray xs] = xs"
| "arg_values args = args"

text \<open>
  The body of the loop,
  \<^verbatim>\<open>promise = promise.then(result => ...).catch(error => ...)\<close>,
  for the step \<open>snd iv\<close> at position \<open>fst iv\<close>.
\<close>

definition chain_stage :: "'w promise \<Rightarrow> nat \<times> 'w jsval \<Rightarrow> 'w promise" where
  "chain_stage promise iv =
    promise_catch (promise_then promise (on_result (fst iv) (snd iv))) on_error"

text \<open>\<^verbatim>\<open>for(const value of values) ...\<close>, from the position \<open>n\<close> on\<close>

definition chain_loop :: "nat \<Rightarrow> 'w promise \<Rightarrow> 'w jsval list \<Rightarrow> 'w promise" where
  "chain_loop n promise vals = foldl chain_stage promise (enumerate n vals)"

definition init :: "'w \<Rightarrow> 'w run" where
  "init w = \<lparr>results = [], rejection = JNull, world = w, calls = []\<rparr>"

text \<open>
  \<^verbatim>\<open>chain(...values)\<close> called with the arguments \<open>args\<close> in the world \<open>w\<close>: the
  settlement of the promise it returns, and the run state at that moment.
\<close>

definition chain :: "'w jsval list \<Rightarrow> 'w \<Rightarrow> 'w promise" where
  "chain args w =
    (let vals = arg_values args;
         promise = (resolve JUndefined, init w);
         promise = chain_loop 0 promise vals
     in promise_then promise on_final)"

section \<open>Notions used to state the properties\<close>

text \<open>
  How one step settles when the loop reaches it in the world \<open>w\<close>, and the world it
  leaves: a callable is invoked, and what it returns is resolved (what it throws is the
  rejection); any other value is resolved as it is. This is the second statement of the
  first callback, followed by the resolution that \<^verbatim>\<open>then\<close> applies to its result.
\<close>

definition step_outcome :: "'w jsval \<Rightarrow> 'w \<Rightarrow> 'w jsval settled \<times> 'w" where
  "step_outcome val w =
    (case val of
       JFunction f \<Rightarrow>
         (case f w of
            (Normal r, w') \<Rightarrow> (resolve r, w')
          | (Throw e, w') \<Rightarrow> (Rejected e, w'))
     | _ \<Rightarrow> (resolve val, w))"

text \<open>
  All the steps succeed, one after another from the world \<open>w\<close>: the values they
  produce, in the order of the steps, and the world after the last one. \<open>None\<close> when a
  step rejects or never settles.
\<close>

fun steps_succeed :: "'w jsval list \<Rightarrow> 'w \<Rightarrow> ('w jsval list \<times> 'w) option" where
  "steps_succeed [] w = Some ([], w)"
| "steps_succeed (val # vals) w =
    (case step_outcome val w of
       (Fulfilled v, w') \<Rightarrow>
         (case steps_succeed vals w' of
            Some (vs, w'') \<Rightarrow> Some (v # vs, w'')
          | None \<Rightarrow> None)
     | (Rejected e, w') \<Rightarrow> None
     | (Pending, w') \<Rightarrow> None)"

fun is_promise :: "'w jsval \<Rightarrow> bool" where
  "is_promise (JPromise p) = True"
| "is_promise _ = False"

text \<open>A plain value: neither callable nor a promise.\<close>

definition is_plain :: "'w jsval \<Rightarrow> bool" where
  "is_plain v = (\<not> is_function v \<and> \<not> is_promise v)"

text \<open>The positions, counted from \<open>n\<close>, of the callables among the steps.\<close>

definition function_positions :: "nat \<Rightarrow> 'w jsval list \<Rightarrow> nat list" where
  "function_positions n vals = map fst (filter (\<lambda>iv. is_function (snd iv)) (enumerate n vals))"

text \<open>What the second callback stores in \<^verbatim>\<open>rejection\<close> for the error \<open>e\<close>.\<close>

definition recorded :: "'w jsval \<Rightarrow> 'w jsval" where
  "recorded e = (if is_nullish e then JBool True else e)"

text \<open>
  The run state once the callbacks of the first \<open>k\<close> stages of the loop have run (or
  have been passed over).
\<close>

definition run_after :: "'w jsval list \<Rightarrow> 'w \<Rightarrow> nat \<Rightarrow> 'w run" where
  "run_after args w k =
    snd (chain_loop 0 (resolve JUndefined, init w) (take k (arg_values args)))"


section \<open>The loop, stage by stage\<close>


lemma chain_loop_Nil: "chain_loop n p [] = p"
  by (simp add: chain_loop_def)

lemma chain_loop_Cons: "chain_loop n p (x # xs) = chain_loop (Suc n) (chain_stage p (n, x)) xs"
  by (simp add: chain_loop_def)

lemma chain_loop_append:
  "chain_loop n p (xs @ ys) = chain_loop (n + length xs) (chain_loop n p xs) ys"
  by (induction xs arbitrary: n p) (simp_all add: chain_loop_Nil chain_loop_Cons)

lemma chain_stage_Pending: "chain_stage (Pending, s) iv = (Pending, s)"
  by (simp add: chain_stage_def promise_then_def promise_catch_def)

lemma chain_stage_Rejected:
  "chain_stage (Rejected e, s) iv =
    (Rejected e, if is_null (rejection s) then s\<lparr>rejection := recorded e\<rparr> else s)"
  by (simp add: chain_stage_def promise_then_def promise_catch_def on_error_def
      Promise_reject_def recorded_def)

lemma chain_stage_Fulfilled:
  "chain_stage (Fulfilled r, s) (i, val) =
    (case step_outcome val (world s) of
       (Fulfilled v, w') \<Rightarrow>
         (Fulfilled v, s\<lparr>results := results s @ [r], world := w',
            calls := calls s @ (if is_function val then [i] else [])\<rparr>)
     | (Rejected e, w') \<Rightarrow>
         (Rejected e, s\<lparr>results := results s @ [r],
            rejection := (if is_null (rejection s) then recorded e else rejection s),
            world := w',
            calls := calls s @ (if is_function val then [i] else [])\<rparr>)
     | (Pending, w') \<Rightarrow>
         (Pending, s\<lparr>results := results s @ [r], world := w',
            calls := calls s @ (if is_function val then [i] else [])\<rparr>))"
  by (cases val)
   (auto simp add: chain_stage_def promise_then_def promise_catch_def on_result_def
      on_error_def Promise_reject_def recorded_def step_outcome_def Let_def
      split: prod.splits completion.splits settled.splits)


lemma is_null_recorded: "\<not> is_null (recorded e)"
  by (cases e) (simp_all add: recorded_def)

lemma chain_loop_Pending: "chain_loop n (Pending, s) vals = (Pending, s)"
  by (induction vals arbitrary: n) (simp_all add: chain_loop_Nil chain_loop_Cons chain_stage_Pending)

lemma chain_loop_Rejected_kept:
  "\<not> is_null (rejection s) \<Longrightarrow> chain_loop n (Rejected e, s) vals = (Rejected e, s)"
  by (induction vals arbitrary: n) (simp_all add: chain_loop_Nil chain_loop_Cons chain_stage_Rejected)

lemma chain_loop_Rejected:
  "chain_loop n (Rejected e, s) vals =
    (Rejected e, if vals = [] \<or> \<not> is_null (rejection s) then s else s\<lparr>rejection := recorded e\<rparr>)"
proof (cases vals)
  case Nil
  then show ?thesis by (simp add: chain_loop_Nil)
next
  case (Cons x xs)
  then show ?thesis
    by (simp add: chain_loop_Cons chain_stage_Rejected chain_loop_Rejected_kept is_null_recorded)
qed

lemma function_positions_Nil: "function_positions n [] = []"
  by (simp add: function_positions_def)

lemma function_positions_Cons:
  "function_positions n (x # xs) = (if is_function x then [n] else []) @ function_positions (Suc n) xs"
  by (simp add: function_positions_def)

lemma function_positions_append:
  "function_positions n (xs @ ys) = function_positions n xs @ function_positions (n + length xs) ys"
  by (induction xs arbitrary: n) (simp_all add: function_positions_Nil function_positions_Cons)

lemma function_positions_bounds:
  "i \<in> set (function_positions n xs) \<Longrightarrow> n \<le> i \<and> i < n + length xs"
  by (induction xs arbitrary: n) (fastforce simp add: function_positions_Nil function_positions_Cons split: if_splits)+

lemma chain_loop_succeed:
  "steps_succeed vals (world s) = Some (vs, w') \<Longrightarrow>
   chain_loop n (Fulfilled r, s) vals =
     (Fulfilled (last (r # vs)),
      s\<lparr>results := results s @ butlast (r # vs), world := w',
        calls := calls s @ function_positions n vals\<rparr>)"
proof (induction vals arbitrary: n r s vs)
  case Nil
  then show ?case by (simp add: chain_loop_Nil function_positions_Nil)
next
  case (Cons val vals)
  from Cons.prems obtain v w1 vs' where
    out: "step_outcome val (world s) = (Fulfilled v, w1)" and
    rest: "steps_succeed vals w1 = Some (vs', w')" and
    vs: "vs = v # vs'"
    by (auto split: prod.splits settled.splits option.splits)
  let ?s1 = "s\<lparr>results := results s @ [r], world := w1,
            calls := calls s @ (if is_function val then [n] else [])\<rparr>"
  have stage: "chain_stage (Fulfilled r, s) (n, val) = (Fulfilled v, ?s1)"
    by (simp add: chain_stage_Fulfilled out)
  have "steps_succeed vals (world ?s1) = Some (vs', w')"
    using rest by simp
  from Cons.IH [OF this, of "Suc n" v]
  show ?case
    by (simp add: chain_loop_Cons stage vs function_positions_Cons)
qed

lemma steps_succeed_length: "steps_succeed vals w = Some (vs, w') \<Longrightarrow> length vs = length vals"
  by (induction vals arbitrary: w vs) (auto split: prod.splits settled.splits option.splits)

lemma steps_succeed_None:
  "steps_succeed vals w = None \<Longrightarrow>
   \<exists>pre x post vs w1 out w2. vals = pre @ x # post \<and> steps_succeed pre w = Some (vs, w1) \<and>
      step_outcome x w1 = (out, w2) \<and> (\<forall>v. out \<noteq> Fulfilled v)"
proof (induction vals arbitrary: w)
  case Nil
  then show ?case by simp
next
  case (Cons val vals)
  obtain out w1 where o: "step_outcome val w = (out, w1)" by (cases "step_outcome val w")
  show ?case
  proof (cases out)
    case (Fulfilled v)
    with Cons.prems o have "steps_succeed vals w1 = None"
      by (auto split: option.splits)
    from Cons.IH [OF this] obtain pre x post vs w2 out' w3 where
      h: "vals = pre @ x # post" "steps_succeed pre w1 = Some (vs, w2)"
         "step_outcome x w2 = (out', w3)" "\<forall>v. out' \<noteq> Fulfilled v"
      by blast
    have "val # vals = (val # pre) @ x # post" using h(1) by simp
    moreover have "steps_succeed (val # pre) w = Some (v # vs, w2)"
      using o Fulfilled h(2) by simp
    ultimately show ?thesis using h(3,4) by blast
  next
    case (Rejected e)
    have "val # vals = [] @ val # vals" by simp
    moreover have "steps_succeed [] w = Some ([], w)" by simp
    ultimately show ?thesis using o Rejected by blast
  next
    case Pending
    have "val # vals = [] @ val # vals" by simp
    moreover have "steps_succeed [] w = Some ([], w)" by simp
    ultimately show ?thesis using o Pending by blast
  qed
qed


section \<open>The three ways a run ends\<close>


lemma chain_succeeds:
  assumes "steps_succeed (arg_values args) w = Some (vs, w')"
  shows "chain args w =
    (Fulfilled (JArray vs),
     \<lparr>results = vs, rejection = JNull, world = w',
      calls = function_positions 0 (arg_values args)\<rparr>)"
proof -
  have "steps_succeed (arg_values args) (world (init w)) = Some (vs, w')"
    using assms by (simp add: init_def)
  from chain_loop_succeed [OF this, of 0 JUndefined]
  show ?thesis
    by (simp add: chain_def promise_then_def on_final_def Promise_resolve_def init_def
        Let_def)
qed

lemma chain_loop_not_fulfilled:
  assumes "steps_succeed pre (world s) = Some (vs, w1)"
    and "step_outcome x w1 = (out, w2)"
    and "\<forall>v. out \<noteq> Fulfilled v"
  shows "chain_loop n (Fulfilled r, s) (pre @ x # post) =
    (out,
     s\<lparr>results := results s @ r # vs,
       rejection := (case out of Rejected e \<Rightarrow>
                       if is_null (rejection s) then recorded e else rejection s
                     | _ \<Rightarrow> rejection s),
       world := w2,
       calls := calls s @ function_positions n pre @
                (if is_function x then [n + length pre] else [])\<rparr>)"
proof -
  let ?s1 = "s\<lparr>results := results s @ butlast (r # vs), world := w1,
        calls := calls s @ function_positions n pre\<rparr>"
  have pre: "chain_loop n (Fulfilled r, s) pre = (Fulfilled (last (r # vs)), ?s1)"
    by (rule chain_loop_succeed [OF assms(1)])
  have bl: "butlast (r # vs) @ [last (r # vs)] = r # vs"
    by (rule append_butlast_last_id) simp
  show ?thesis
  proof (cases out)
    case (Fulfilled v)
    with assms(3) show ?thesis by simp
  next
    case (Rejected e)
    have "chain_stage (Fulfilled (last (r # vs)), ?s1) (n + length pre, x) =
      (Rejected e, ?s1\<lparr>results := results ?s1 @ [last (r # vs)],
            rejection := (if is_null (rejection ?s1) then recorded e else rejection ?s1),
            world := w2,
            calls := calls ?s1 @ (if is_function x then [n + length pre] else [])\<rparr>)"
      using assms(2) Rejected by (simp add: chain_stage_Fulfilled)
    then show ?thesis
      using Rejected bl
      by (simp add: chain_loop_append chain_loop_Cons pre chain_loop_Rejected_kept
          is_null_recorded)
  next
    case Pending
    have "chain_stage (Fulfilled (last (r # vs)), ?s1) (n + length pre, x) =
      (Pending, ?s1\<lparr>results := results ?s1 @ [last (r # vs)],
            world := w2,
            calls := calls ?s1 @ (if is_function x then [n + length pre] else [])\<rparr>)"
      using assms(2) Pending by (simp add: chain_stage_Fulfilled)
    then show ?thesis
      using Pending bl
      by (simp add: chain_loop_append chain_loop_Cons pre chain_loop_Pending)
  qed
qed

lemma chain_fails:
  assumes "arg_values args = pre @ x # post"
    and "steps_succeed pre w = Some (vs, w1)"
    and "step_outcome x w1 = (Rejected e, w2)"
  shows "chain args w =
    (Rejected e,
     \<lparr>results = JUndefined # vs, rejection = recorded e, world = w2,
      calls = function_positions 0 pre @ (if is_function x then [length pre] else [])\<rparr>)"
proof -
  have "steps_succeed pre (world (init w)) = Some (vs, w1)"
    using assms(2) by (simp add: init_def)
  from chain_loop_not_fulfilled [OF this assms(3), of 0 JUndefined post]
  show ?thesis
    by (simp add: chain_def assms(1) promise_then_def init_def Let_def)
qed

lemma chain_stalls:
  assumes "arg_values args = pre @ x # post"
    and "steps_succeed pre w = Some (vs, w1)"
    and "step_outcome x w1 = (Pending, w2)"
  shows "chain args w =
    (Pending,
     \<lparr>results = JUndefined # vs, rejection = JNull, world = w2,
      calls = function_positions 0 pre @ (if is_function x then [length pre] else [])\<rparr>)"
proof -
  have "steps_succeed pre (world (init w)) = Some (vs, w1)"
    using assms(2) by (simp add: init_def)
  from chain_loop_not_fulfilled [OF this assms(3), of 0 JUndefined post]
  show ?thesis
    by (simp add: chain_def assms(1) promise_then_def init_def Let_def)
qed


section \<open>Plain values, positions, and the recorded rejection\<close>


lemma step_outcome_plain: "is_plain val \<Longrightarrow> step_outcome val w = (Fulfilled val, w)"
  by (cases val) (simp_all add: is_plain_def step_outcome_def)

lemma steps_succeed_plain:
  "\<forall>v\<in>set vals. is_plain v \<Longrightarrow> steps_succeed vals w = Some (vals, w)"
  by (induction vals) (simp_all add: step_outcome_plain)

lemma function_positions_plain:
  "\<forall>v\<in>set vals. is_plain v \<Longrightarrow> function_positions n vals = []"
  by (induction vals arbitrary: n) (simp_all add: function_positions_Nil function_positions_Cons is_plain_def)

lemma steps_succeed_nth:
  "steps_succeed vals w = Some (vs, w') \<Longrightarrow> i < length vals \<Longrightarrow>
   \<exists>wi wi'. step_outcome (vals ! i) wi = (Fulfilled (vs ! i), wi')"
proof (induction vals arbitrary: w vs i)
  case Nil
  then show ?case by simp
next
  case (Cons val vals)
  from Cons.prems(1) obtain v w1 vs' where
    out: "step_outcome val w = (Fulfilled v, w1)" and
    rest: "steps_succeed vals w1 = Some (vs', w')" and
    vs: "vs = v # vs'"
    by (auto split: prod.splits settled.splits option.splits)
  show ?case
  proof (cases i)
    case 0
    then show ?thesis using out vs by auto
  next
    case (Suc k)
    then have "k < length vals" using Cons.prems(2) by simp
    from Cons.IH [OF rest this] show ?thesis using Suc vs by simp
  qed
qed

lemma steps_succeed_take:
  "steps_succeed vals w = Some (vs, w') \<Longrightarrow>
   \<exists>w''. steps_succeed (take j vals) w = Some (take j vs, w'')"
proof (induction vals arbitrary: w vs j)
  case Nil
  then show ?case by simp
next
  case (Cons val vals)
  from Cons.prems(1) obtain v w1 vs' where
    out: "step_outcome val w = (Fulfilled v, w1)" and
    rest: "steps_succeed vals w1 = Some (vs', w')" and
    vs: "vs = v # vs'"
    by (auto split: prod.splits settled.splits option.splits)
  show ?case
  proof (cases j)
    case 0
    then show ?thesis by simp
  next
    case (Suc k)
    from Cons.IH [OF rest, of k] obtain w'' where
      "steps_succeed (take k vals) w1 = Some (take k vs', w'')" by blast
    then show ?thesis using Suc vs out by simp
  qed
qed

lemma rejection_kept_stage:
  "\<not> is_null (rejection (snd p)) \<Longrightarrow> rejection (snd (chain_stage p iv)) = rejection (snd p)"
proof -
  assume a: "\<not> is_null (rejection (snd p))"
  obtain out s where p: "p = (out, s)" by (cases p)
  obtain i val where iv: "iv = (i, val)" by (cases iv)
  show ?thesis
  proof (cases out)
    case (Fulfilled r)
    then show ?thesis using a p iv
      by (simp add: chain_stage_Fulfilled split: prod.splits settled.splits)
  next
    case (Rejected e)
    then show ?thesis using a p by (simp add: chain_stage_Rejected)
  next
    case Pending
    then show ?thesis using p by (simp add: chain_stage_Pending)
  qed
qed

lemma rejection_kept_loop:
  "\<not> is_null (rejection (snd p)) \<Longrightarrow>
   rejection (snd (chain_loop n p vals)) = rejection (snd p)"
proof (induction vals arbitrary: n p)
  case Nil
  then show ?case by (simp add: chain_loop_Nil)
next
  case (Cons val vals)
  have "\<not> is_null (rejection (snd (chain_stage p (n, val))))"
    using Cons.prems by (simp add: rejection_kept_stage)
  from Cons.IH [OF this] show ?case
    using Cons.prems by (simp add: chain_loop_Cons rejection_kept_stage)
qed

lemma rejection_kept_final:
  "rejection (snd (promise_then p on_final)) = rejection (snd p)"
  by (cases p) (simp add: promise_then_def on_final_def Let_def Promise_reject_def
      Promise_resolve_def split: settled.splits)

lemma chain_outcomes:
  "(\<exists>vs w'. steps_succeed (arg_values args) w = Some (vs, w')) \<or>
   (\<exists>pre x post vs w1 out w2. arg_values args = pre @ x # post \<and>
      steps_succeed pre w = Some (vs, w1) \<and> step_outcome x w1 = (out, w2) \<and>
      (\<forall>v. out \<noteq> Fulfilled v))"
  using steps_succeed_None [of "arg_values args" w]
  by (cases "steps_succeed (arg_values args) w") auto

lemma chain_Rejected_origin:
  assumes "fst (chain args w) = Rejected e"
  shows "\<exists>pre x post vs w1 w2. arg_values args = pre @ x # post \<and>
      steps_succeed pre w = Some (vs, w1) \<and> step_outcome x w1 = (Rejected e, w2)"
proof -
  from chain_outcomes [of args w] show ?thesis
  proof
    assume "\<exists>vs w'. steps_succeed (arg_values args) w = Some (vs, w')"
    then obtain vs w' where "steps_succeed (arg_values args) w = Some (vs, w')" by blast
    from chain_succeeds [OF this] assms show ?thesis by simp
  next
    assume "\<exists>pre x post vs w1 out w2. arg_values args = pre @ x # post \<and>
      steps_succeed pre w = Some (vs, w1) \<and> step_outcome x w1 = (out, w2) \<and>
      (\<forall>v. out \<noteq> Fulfilled v)"
    then obtain pre x post vs w1 out w2 where
      h: "arg_values args = pre @ x # post" "steps_succeed pre w = Some (vs, w1)"
         "step_outcome x w1 = (out, w2)" "\<forall>v. out \<noteq> Fulfilled v"
      by blast
    show ?thesis
    proof (cases out)
      case (Fulfilled v)
      with h(4) show ?thesis by simp
    next
      case (Rejected e')
      with h(3) have o: "step_outcome x w1 = (Rejected e', w2)" by simp
      from chain_fails [OF h(1) h(2) o] assms have "e' = e" by simp
      with h(1) h(2) o show ?thesis by blast
    next
      case Pending
      with h(3) have o: "step_outcome x w1 = (Pending, w2)" by simp
      from chain_stalls [OF h(1) h(2) o] assms show ?thesis by simp
    qed
  qed
qed

lemma line_after_loop:
  "(\<exists>vs w'. steps_succeed (arg_values args) w = Some (vs, w') \<and>
      chain_loop 0 (resolve JUndefined, init w) (arg_values args) =
        (Fulfilled (last (JUndefined # vs)),
         \<lparr>results = butlast (JUndefined # vs), rejection = JNull, world = w',
          calls = function_positions 0 (arg_values args)\<rparr>)) \<or>
   (\<exists>pre x post vs w1 out w2. arg_values args = pre @ x # post \<and>
      steps_succeed pre w = Some (vs, w1) \<and> step_outcome x w1 = (out, w2) \<and>
      (\<forall>v. out \<noteq> Fulfilled v) \<and>
      chain_loop 0 (resolve JUndefined, init w) (arg_values args) =
        (out,
         \<lparr>results = JUndefined # vs,
          rejection = (case out of Rejected e \<Rightarrow> recorded e | _ \<Rightarrow> JNull),
          world = w2,
          calls = function_positions 0 pre @ (if is_function x then [length pre] else [])\<rparr>))"
proof -
  from chain_outcomes [of args w] show ?thesis
  proof
    assume "\<exists>vs w'. steps_succeed (arg_values args) w = Some (vs, w')"
    then obtain vs w' where h: "steps_succeed (arg_values args) w = Some (vs, w')" by blast
    then have "steps_succeed (arg_values args) (world (init w)) = Some (vs, w')"
      by (simp add: init_def)
    from chain_loop_succeed [OF this, of 0 JUndefined] h
    show ?thesis by (simp add: init_def)
  next
    assume "\<exists>pre x post vs w1 out w2. arg_values args = pre @ x # post \<and>
      steps_succeed pre w = Some (vs, w1) \<and> step_outcome x w1 = (out, w2) \<and>
      (\<forall>v. out \<noteq> Fulfilled v)"
    then obtain pre x post vs w1 out w2 where
      h: "arg_values args = pre @ x # post" "steps_succeed pre w = Some (vs, w1)"
         "step_outcome x w1 = (out, w2)" "\<forall>v. out \<noteq> Fulfilled v"
      by blast
    from h(2) have "steps_succeed pre (world (init w)) = Some (vs, w1)"
      by (simp add: init_def)
    from chain_loop_not_fulfilled [OF this h(3) h(4), of 0 JUndefined post]
    have "chain_loop 0 (resolve JUndefined, init w) (arg_values args) =
        (out,
         \<lparr>results = JUndefined # vs,
          rejection = (case out of Rejected e \<Rightarrow> recorded e | _ \<Rightarrow> JNull),
          world = w2,
          calls = function_positions 0 pre @ (if is_function x then [length pre] else [])\<rparr>)"
      by (cases out) (simp_all add: h(1) init_def)
    with h show ?thesis by blast
  qed
qed

lemma run_after_split:
  assumes "i \<le> j"
  shows "chain_loop 0 p (take j vals) =
    chain_loop (length (take i vals)) (chain_loop 0 p (take i vals)) (drop i (take j vals))"
proof -
  have "take i (take j vals) = take i vals"
    using assms by (simp add: min_def)
  then have "take j vals = take i vals @ drop i (take j vals)"
    by (metis append_take_drop_id)
  then have "chain_loop 0 p (take j vals) = chain_loop 0 p (take i vals @ drop i (take j vals))"
    by simp
  then show ?thesis by (simp only: chain_loop_append add_0)
qed

lemma run_after_kept:
  assumes "i \<le> j" and "\<not> is_null (rejection (run_after args w i))"
  shows "rejection (run_after args w j) = rejection (run_after args w i)"
  unfolding run_after_def
  using assms(2) rejection_kept_loop
  by (simp only: run_after_split [OF assms(1)] run_after_def)

lemma run_after_all:
  "length (arg_values args) \<le> k \<Longrightarrow>
   rejection (snd (chain args w)) = rejection (run_after args w k)"
  by (simp add: chain_def run_after_def rejection_kept_final Let_def)

lemma run_after_before_failure:
  assumes "arg_values args = pre @ x # post"
    and "steps_succeed pre w = Some (vs, w1)"
    and "j \<le> length pre"
  shows "rejection (run_after args w j) = JNull"
proof -
  have t: "take j (arg_values args) = take j pre"
    using assms(1,3) by simp
  from steps_succeed_take [OF assms(2), of j] obtain w'' where
    "steps_succeed (take j pre) w = Some (take j vs, w'')" by blast
  then have "steps_succeed (take j pre) (world (init w)) = Some (take j vs, w'')"
    by (simp add: init_def)
  from chain_loop_succeed [OF this, of 0 JUndefined]
  show ?thesis by (simp add: run_after_def t init_def)
qed

lemma run_after_failure:
  assumes "arg_values args = pre @ x # post"
    and "steps_succeed pre w = Some (vs, w1)"
    and "step_outcome x w1 = (Rejected e, w2)"
    and "length pre < j"
  shows "rejection (run_after args w j) = recorded e"
proof -
  from assms(4) obtain k where j: "j = Suc (length pre + k)"
    by (metis less_imp_Suc_add)
  have t: "take j (arg_values args) = pre @ x # take k post"
    by (simp add: assms(1) j)
  have "steps_succeed pre (world (init w)) = Some (vs, w1)"
    using assms(2) by (simp add: init_def)
  from chain_loop_not_fulfilled [OF this assms(3), of 0 JUndefined "take k post"]
  show ?thesis by (simp add: run_after_def t init_def)
qed


section \<open>The properties of \<open>chain\<close>\<close>


text \<open>
  Claim C1, as stated, for every sequence of non-callable steps: it fails for a
  non-callable step that is a promise. \<^verbatim>\<open>chain(Promise.reject("x"))\<close> has one step, which
  is not a function; the first callback returns the promise, the promise of the line
  adopts its rejection, and the run rejects with \<^verbatim>\<open>"x"\<close> instead of fulfilling with the
  list of its one step.
\<close>

theorem plain_promise_step_counterexample:
  "\<not> is_function (JPromise (Rejected (JStr ''x'')) :: unit jsval) \<and>
   fst (chain [JPromise (Rejected (JStr ''x''))] ()) = Rejected (JStr ''x'') \<and>
   fst (chain [JPromise (Rejected (JStr ''x''))] ())
     \<noteq> Fulfilled (JArray [JPromise (Rejected (JStr ''x''))])"
  by (simp add: chain_def chain_loop_def chain_stage_def promise_then_def promise_catch_def
      on_result_def on_error_def init_def Promise_reject_def Let_def)

text \<open>
  Claim C1, amended: when every step of the input sequence is a plain value (neither
  callable nor a promise), \<^verbatim>\<open>chain\<close> fulfils with a list equal to the input sequence,
  in the same order; nothing is invoked and the world is untouched. The input sequence
  is \<open>arg_values args\<close>: the elements of the array when the call has one argument and
  it is an array, the arguments themselves otherwise.
\<close>

theorem plain_values_unchanged:
  assumes "\<forall>v\<in>set (arg_values args). is_plain v"
  shows "chain args w =
    (Fulfilled (JArray (arg_values args)),
     \<lparr>results = arg_values args, rejection = JNull, world = w, calls = []\<rparr>)"
  using chain_succeeds [OF steps_succeed_plain [OF assms, of w]]
  by (simp add: function_positions_plain [OF assms])

text \<open>Claim C1, amended, at \<^verbatim>\<open>chain(1, "two", [null])\<close>.\<close>

theorem plain_values_unchanged_witness:
  "is_plain (JNum 1 :: unit jsval) \<and> is_plain (JStr ''two'' :: unit jsval) \<and>
   is_plain (JArray [JNull] :: unit jsval) \<and>
   chain [JNum 1, JStr ''two'', JArray [JNull]] () =
    (Fulfilled (JArray [JNum 1, JStr ''two'', JArray [JNull]]),
     \<lparr>results = [JNum 1, JStr ''two'', JArray [JNull]], rejection = JNull, world = (),
      calls = []\<rparr>)"
  using plain_values_unchanged [of "[JNum 1, JStr ''two'', JArray [JNull]]" "()"]
  by (simp add: is_plain_def)

text \<open>
  Claim C2: when the steps before position \<open>length pre\<close> all succeed and the step at
  that position is a callable whose invocation fails (it throws \<open>e\<close>, or returns a
  promise that rejects with \<open>e\<close>), the run rejects with \<open>e\<close>, the invocation trace
  holds the callables of the earlier steps and the failing one and no position after
  it, and the world is the one the failing invocation left: no callable of a later step
  is invoked, whatever the later steps \<open>post\<close> are.
\<close>

theorem later_callables_not_invoked:
  assumes "arg_values args = pre @ JFunction f # post"
    and "steps_succeed pre w = Some (vs, w1)"
    and "step_outcome (JFunction f) w1 = (Rejected e, w2)"
  shows "fst (chain args w) = Rejected e \<and>
    calls (snd (chain args w)) = function_positions 0 pre @ [length pre] \<and>
    (\<forall>i. length pre < i \<longrightarrow> i \<notin> set (calls (snd (chain args w)))) \<and>
    world (snd (chain args w)) = w2"
proof -
  have c: "chain args w =
    (Rejected e,
     \<lparr>results = JUndefined # vs, rejection = recorded e, world = w2,
      calls = function_positions 0 pre @ [length pre]\<rparr>)"
    using chain_fails [OF assms] by simp
  have "i \<notin> set (function_positions 0 pre @ [length pre])" if "length pre < i" for i
    using that function_positions_bounds [of i 0 pre] by auto
  then show ?thesis by (simp add: c)
qed

text \<open>
  Claim C2 at \<^verbatim>\<open>chain(() => { n += 1; throw "x"; }, () => { n += 10; return 99; })\<close>
  with the counter \<open>n\<close> as the world: it ends at 1 and only position 0 was invoked.
\<close>

theorem later_callables_not_invoked_witness:
  "fst (chain [JFunction (\<lambda>w. (Throw (JStr ''x''), w + 1)),
               JFunction (\<lambda>w. (Normal (JNum 99), w + 10))] (0::nat)) = Rejected (JStr ''x'') \<and>
   calls (snd (chain [JFunction (\<lambda>w. (Throw (JStr ''x''), w + 1)),
               JFunction (\<lambda>w. (Normal (JNum 99), w + 10))] (0::nat))) = [0] \<and>
   world (snd (chain [JFunction (\<lambda>w. (Throw (JStr ''x''), w + 1)),
               JFunction (\<lambda>w. (Normal (JNum 99), w + 10))] (0::nat))) = 1"
  using later_callables_not_invoked
    [of "[JFunction (\<lambda>w. (Throw (JStr ''x''), w + 1)),
          JFunction (\<lambda>w. (Normal (JNum 99), w + 10))]"
        "[]" "\<lambda>w. (Throw (JStr ''x''), w + 1)"
        "[JFunction (\<lambda>w. (Normal (JNum 99), w + 10))]" "0::nat" "[]" 0 "JStr ''x''" 1]
  by (simp add: step_outcome_def function_positions_Nil)

text \<open>
  Claim C3: in a run where a step fails, that is, the steps \<open>pre\<close> succeed and the
  next step \<open>x\<close> rejects with \<open>e\<close>, what the caller gets is the rejection with the one
  value \<open>e\<close>, the error of the earliest failing step, whatever the later steps are
  (failing or not); the caller gets no result list.
\<close>

theorem earliest_failure_surfaces:
  assumes "arg_values args = pre @ x # post"
    and "steps_succeed pre w = Some (vs, w1)"
    and "step_outcome x w1 = (Rejected e, w2)"
  shows "fst (chain args w) = Rejected e"
  using chain_fails [OF assms] by simp

text \<open>
  Claim C3 at \<^verbatim>\<open>chain(1, () => { throw "first"; }, () => { throw "second"; })\<close>.
\<close>

theorem earliest_failure_surfaces_witness:
  "fst (chain [JNum 1, JFunction (\<lambda>w. (Throw (JStr ''first''), w)),
               JFunction (\<lambda>w. (Throw (JStr ''second''), w))] ()) = Rejected (JStr ''first'')"
  using earliest_failure_surfaces
    [of "[JNum 1, JFunction (\<lambda>w. (Throw (JStr ''first''), w)),
               JFunction (\<lambda>w. (Throw (JStr ''second''), w))]"
        "[JNum 1]" "JFunction (\<lambda>w. (Throw (JStr ''first''), w))"
        "[JFunction (\<lambda>w. (Throw (JStr ''second''), w))]" "()" "[JNum 1]" "()"
        "JStr ''first''" "()"]
  by (simp add: step_outcome_def)

text \<open>
  Claim C4 does not hold of the code: \<^verbatim>\<open>chain(() => { throw null; })\<close> rejects with
  \<^verbatim>\<open>null\<close> itself. The sentinel \<^verbatim>\<open>true\<close> is stored in \<^verbatim>\<open>rejection\<close>, but the second
  callback re-rejects with the original \<^verbatim>\<open>error\<close>, and the last callback, the only
  reader of \<^verbatim>\<open>rejection\<close>, is passed over when the line is rejected. Likewise
  \<^verbatim>\<open>chain(() => Promise.reject())\<close> rejects with \<^verbatim>\<open>undefined\<close>.
\<close>

theorem null_error_surfaces_unreplaced:
  "fst (chain [JFunction (\<lambda>w. (Throw JNull, w))] ()) = Rejected JNull \<and>
   rejection (snd (chain [JFunction (\<lambda>w. (Throw JNull, w))] ())) = JBool True \<and>
   fst (chain [JFunction (\<lambda>w. (Normal (Promise_reject JUndefined), w))] ())
     = Rejected JUndefined"
  by (simp add: chain_def chain_loop_def chain_stage_def promise_then_def promise_catch_def
      on_result_def on_error_def init_def Promise_reject_def Let_def)

text \<open>
  Claim C5: for all steps \<open>a\<close>, \<open>b\<close>, \<open>c\<close>, the call \<^verbatim>\<open>chain(a, b, c)\<close> and the call
  \<^verbatim>\<open>chain([a, b, c])\<close> have the same outcome (and leave the same run state).
\<close>

theorem variadic_and_array_forms_agree:
  "chain [a, b, c] w = chain [JArray [a, b, c]] w"
  by (simp add: chain_def)

text \<open>
  Claim C6: with no step, as \<^verbatim>\<open>chain()\<close> or as \<^verbatim>\<open>chain([])\<close>, the run fulfils with
  the empty list; nothing is invoked and the world is untouched.
\<close>

theorem empty_input_fulfils:
  "chain [] w =
     (Fulfilled (JArray []), \<lparr>results = [], rejection = JNull, world = w, calls = []\<rparr>) \<and>
   chain [JArray []] w =
     (Fulfilled (JArray []), \<lparr>results = [], rejection = JNull, world = w, calls = []\<rparr>)"
  by (simp add: chain_def chain_loop_def promise_then_def on_final_def init_def
      Promise_resolve_def Let_def)

text \<open>
  Claim C7: when all the steps succeed, plain values and callables mixed, the run
  fulfils with the list \<open>vs\<close> of the values the steps produce: it is as long as the
  input sequence, and its element at position \<open>i\<close> is the value that the step at
  position \<open>i\<close> produces.
\<close>

theorem results_in_input_order:
  assumes "steps_succeed (arg_values args) w = Some (vs, w')"
  shows "fst (chain args w) = Fulfilled (JArray vs) \<and>
    length vs = length (arg_values args) \<and>
    (\<forall>i<length (arg_values args).
       \<exists>wi wi'. step_outcome (arg_values args ! i) wi = (Fulfilled (vs ! i), wi'))"
  using chain_succeeds [OF assms] steps_succeed_length [OF assms]
    steps_succeed_nth [OF assms]
  by simp

text \<open>
  Claim C7 at \<^verbatim>\<open>chain(1, () => 2, 3, () => Promise.resolve(4))\<close>, which fulfils with
  \<^verbatim>\<open>[1, 2, 3, 4]\<close>.
\<close>

theorem results_in_input_order_witness:
  "fst (chain [JNum 1, JFunction (\<lambda>w. (Normal (JNum 2), w)), JNum 3,
               JFunction (\<lambda>w. (Normal (Promise_resolve (JNum 4)), w))] ())
   = Fulfilled (JArray [JNum 1, JNum 2, JNum 3, JNum 4])"
  using results_in_input_order
    [of "[JNum 1, JFunction (\<lambda>w. (Normal (JNum 2), w)), JNum 3,
               JFunction (\<lambda>w. (Normal (Promise_resolve (JNum 4)), w))]" "()"
        "[JNum 1, JNum 2, JNum 3, JNum 4]" "()"]
  by (simp add: step_outcome_def Promise_resolve_def)

text \<open>
  Claim C8, as stated, for every non-callable step: it fails when the step is a rejected
  promise. \<^verbatim>\<open>chain(1, Promise.reject("late"))\<close> has no callable at all, nothing is
  invoked, and the run rejects with \<^verbatim>\<open>"late"\<close>: the failure comes from the second
  step, which is not a function.
\<close>

theorem rejected_promise_step_counterexample:
  "\<not> is_function (JNum 1 :: unit jsval) \<and>
   \<not> is_function (JPromise (Rejected (JStr ''late'')) :: unit jsval) \<and>
   chain [JNum 1, JPromise (Rejected (JStr ''late''))] () =
     (Rejected (JStr ''late''),
      \<lparr>results = [JUndefined, JNum 1], rejection = JStr ''late'', world = (), calls = []\<rparr>)"
  by (simp add: chain_def chain_loop_def chain_stage_def promise_then_def promise_catch_def
      on_result_def on_error_def init_def Promise_reject_def Let_def)

text \<open>
  Claim C8, amended: a plain value (neither callable nor a promise) never fails as a
  step: it settles as itself and leaves the world alone. And whenever the run rejects
  with \<open>e\<close>, there is a step \<open>x\<close>, reached after the steps before it succeeded, that
  rejected with \<open>e\<close>, and \<open>x\<close> is a callable (whose invocation failed) or is itself a
  promise rejected with \<open>e\<close>.
\<close>

theorem failure_origin:
  "(is_plain val \<longrightarrow> step_outcome val w0 = (Fulfilled val, w0)) \<and>
   (fst (chain args w) = Rejected e \<longrightarrow>
     (\<exists>pre x post vs w1 w2. arg_values args = pre @ x # post \<and>
        steps_succeed pre w = Some (vs, w1) \<and>
        step_outcome x w1 = (Rejected e, w2) \<and>
        (is_function x \<or> x = JPromise (Rejected e))))"
proof (intro conjI impI)
  assume "is_plain val"
  then show "step_outcome val w0 = (Fulfilled val, w0)" by (rule step_outcome_plain)
next
  assume "fst (chain args w) = Rejected e"
  from chain_Rejected_origin [OF this] obtain pre x post vs w1 w2 where
    h: "arg_values args = pre @ x # post" "steps_succeed pre w = Some (vs, w1)"
       "step_outcome x w1 = (Rejected e, w2)"
    by blast
  have "is_function x \<or> x = JPromise (Rejected e)"
    using h(3) by (cases x) (simp_all add: step_outcome_def)
  with h show "\<exists>pre x post vs w1 w2. arg_values args = pre @ x # post \<and>
        steps_succeed pre w = Some (vs, w1) \<and>
        step_outcome x w1 = (Rejected e, w2) \<and>
        (is_function x \<or> x = JPromise (Rejected e))"
    by blast
qed

text \<open>
  Claim C8, amended, at the plain value \<^verbatim>\<open>"v"\<close> and at
  \<^verbatim>\<open>chain("v", () => { throw "x"; })\<close>.
\<close>

theorem failure_origin_witness:
  "step_outcome (JStr ''v'') () = (Fulfilled (JStr ''v''), ()) \<and>
   (\<exists>pre x post vs w1 w2.
      arg_values [JStr ''v'', JFunction (\<lambda>w. (Throw (JStr ''x''), w))] = pre @ x # post \<and>
      steps_succeed pre () = Some (vs, w1) \<and>
      step_outcome x w1 = (Rejected (JStr ''x''), w2) \<and>
      (is_function x \<or> x = JPromise (Rejected (JStr ''x''))))"
proof -
  have a: "is_plain (JStr ''v'' :: unit jsval)" by (simp add: is_plain_def)
  have b: "fst (chain [JStr ''v'', JFunction (\<lambda>w. (Throw (JStr ''x''), w))] ())
            = Rejected (JStr ''x'')"
    by (simp add: chain_def chain_loop_def chain_stage_def promise_then_def promise_catch_def
      on_result_def on_error_def init_def Promise_reject_def Let_def)
  from failure_origin [of "JStr ''v''" "()" "[JStr ''v'', JFunction (\<lambda>w. (Throw (JStr ''x''), w))]" "()" "JStr ''x''"] a b
  show ?thesis by blast
qed

text \<open>
  Claim C10: the last callback runs exactly when the promise that the loop leaves is
  fulfilled, and then \<^verbatim>\<open>rejection\<close> is still \<^verbatim>\<open>null\<close>, so the callback takes the
  branch \<^verbatim>\<open>Promise.resolve(results)\<close> and never \<^verbatim>\<open>Promise.reject(rejection)\<close>. When
  the loop leaves a rejected promise, a failure has been recorded, the last callback is
  passed over, and the run rejects with the error of the line, the state as the loop
  left it.
\<close>

theorem final_rejection_branch_unreachable:
  "(chain_loop 0 (resolve JUndefined, init w) (arg_values args) = (Fulfilled v, s) \<longrightarrow>
      rejection s = JNull \<and>
      fst (on_final v s) = Normal (Promise_resolve (JArray (tl (results s @ [v]))))) \<and>
   (chain_loop 0 (resolve JUndefined, init w) (arg_values args) = (Rejected e, s) \<longrightarrow>
      \<not> is_null (rejection s) \<and> chain args w = (Rejected e, s))"
proof (intro conjI impI)
  assume a: "chain_loop 0 (resolve JUndefined, init w) (arg_values args) = (Fulfilled v, s)"
  with line_after_loop [of args w] show r: "rejection s = JNull"
    by auto
  then show "fst (on_final v s) = Normal (Promise_resolve (JArray (tl (results s @ [v]))))"
    by (simp add: on_final_def Let_def)
next
  assume a: "chain_loop 0 (resolve JUndefined, init w) (arg_values args) = (Rejected e, s)"
  with line_after_loop [of args w] show "\<not> is_null (rejection s)"
    by (auto simp add: is_null_recorded)
  show "chain args w = (Rejected e, s)"
    using a by (simp add: chain_def promise_then_def Let_def)
qed

text \<open>
  Claim C10 at \<^verbatim>\<open>chain(7)\<close>, where the last callback runs, and at
  \<^verbatim>\<open>chain(() => { throw "x"; })\<close>, where it does not.
\<close>

theorem final_rejection_branch_unreachable_witness:
  "rejection \<lparr>results = [JUndefined], rejection = JNull, world = (), calls = []\<rparr>
     = (JNull :: unit jsval) \<and>
   fst (on_final (JNum 7)
         \<lparr>results = [JUndefined], rejection = JNull, world = (), calls = []\<rparr>)
     = Normal (Promise_resolve (JArray [JNum 7])) \<and>
   chain [JFunction (\<lambda>w. (Throw (JStr ''x''), w))] () =
     (Rejected (JStr ''x''),
      \<lparr>results = [JUndefined], rejection = JStr ''x'', world = (), calls = [0]\<rparr>)"
proof -
  have a: "chain_loop 0 (resolve JUndefined, init ()) (arg_values [JNum 7]) =
    (Fulfilled (JNum 7), \<lparr>results = [JUndefined], rejection = JNull, world = (), calls = []\<rparr>)"
    by (simp add: chain_loop_def chain_stage_def promise_then_def promise_catch_def
      on_result_def init_def Let_def)
  have b: "chain_loop 0 (resolve JUndefined, init ())
      (arg_values [JFunction (\<lambda>w. (Throw (JStr ''x''), w))]) =
    (Rejected (JStr ''x''),
      \<lparr>results = [JUndefined], rejection = JStr ''x'', world = (), calls = [0]\<rparr>)"
    by (simp add: chain_loop_def chain_stage_def promise_then_def promise_catch_def
      on_result_def on_error_def init_def Promise_reject_def Let_def)
  from final_rejection_branch_unreachable
    [of "()" "[JNum 7]" "JNum 7"
        "\<lparr>results = [JUndefined], rejection = JNull, world = (), calls = []\<rparr>"] a
  have c: "rejection \<lparr>results = [JUndefined], rejection = JNull, world = (), calls = []\<rparr>
     = (JNull :: unit jsval) \<and>
   fst (on_final (JNum 7)
         \<lparr>results = [JUndefined], rejection = JNull, world = (), calls = []\<rparr>)
     = Normal (Promise_resolve (JArray [JNum 7]))"
    by simp
  from final_rejection_branch_unreachable
    [of "()" "[JFunction (\<lambda>w. (Throw (JStr ''x''), w))]" _
        "\<lparr>results = [JUndefined], rejection = JStr ''x'', world = (), calls = [0]\<rparr>"
        "JStr ''x''"] b
  have "chain [JFunction (\<lambda>w. (Throw (JStr ''x''), w))] () =
     (Rejected (JStr ''x''),
      \<lparr>results = [JUndefined], rejection = JStr ''x'', world = (), calls = [0]\<rparr>)"
    by simp
  with c show ?thesis by simp
qed

text \<open>
  Claim C9: the second callback writes \<^verbatim>\<open>rejection\<close> only while it is \<^verbatim>\<open>null\<close>, so
  a recorded failure is never overwritten: once \<^verbatim>\<open>rejection\<close> is set after \<open>i\<close>
  stages, it has the same value after any later number \<open>j\<close> of stages and at the end of
  the run. And the failure that is recorded is the first one in step order: when the
  steps \<open>pre\<close> succeed and the next step rejects with \<open>e\<close>, \<^verbatim>\<open>rejection\<close> is
  \<^verbatim>\<open>null\<close> up to that stage and is the record of \<open>e\<close> (\<open>e\<close> itself, or \<^verbatim>\<open>true\<close> when
  \<open>e\<close> is \<^verbatim>\<open>null\<close> or \<^verbatim>\<open>undefined\<close>) from then on, whatever the later steps are.
\<close>

theorem rejection_recorded_once:
  "(\<not> is_null (rejection s) \<longrightarrow> snd (on_error e' s) = s) \<and>
   (i \<le> j \<and> \<not> is_null (rejection (run_after args w i)) \<longrightarrow>
      rejection (run_after args w j) = rejection (run_after args w i) \<and>
      rejection (snd (chain args w)) = rejection (run_after args w i)) \<and>
   (arg_values args = pre @ x # post \<and> steps_succeed pre w = Some (vs, w1) \<and>
    step_outcome x w1 = (Rejected e, w2) \<longrightarrow>
      (\<forall>k. rejection (run_after args w k) = (if k \<le> length pre then JNull else recorded e)) \<and>
      rejection (snd (chain args w)) = recorded e)"
proof (intro conjI impI allI)
  assume "\<not> is_null (rejection s)"
  then show "snd (on_error e' s) = s" by (simp add: on_error_def)
next
  assume a: "i \<le> j \<and> \<not> is_null (rejection (run_after args w i))"
  then show "rejection (run_after args w j) = rejection (run_after args w i)"
    by (simp add: run_after_kept)
  have "i \<le> max i (length (arg_values args))" by simp
  from run_after_kept [OF this, of args w] a
  have "rejection (run_after args w (max i (length (arg_values args))))
        = rejection (run_after args w i)"
    by simp
  then show "rejection (snd (chain args w)) = rejection (run_after args w i)"
    by (simp add: run_after_all [of args "max i (length (arg_values args))" w])
next
  fix k
  assume a: "arg_values args = pre @ x # post \<and> steps_succeed pre w = Some (vs, w1) \<and>
    step_outcome x w1 = (Rejected e, w2)"
  show "rejection (run_after args w k) = (if k \<le> length pre then JNull else recorded e)"
  proof (cases "k \<le> length pre")
    case True
    then show ?thesis using a run_after_before_failure [of args pre x post w vs w1 k] by simp
  next
    case False
    then show ?thesis using a run_after_failure [of args pre x post w vs w1 e w2 k] by simp
  qed
next
  assume a: "arg_values args = pre @ x # post \<and> steps_succeed pre w = Some (vs, w1) \<and>
    step_outcome x w1 = (Rejected e, w2)"
  then show "rejection (snd (chain args w)) = recorded e"
    using chain_fails [of args pre x post w vs w1 e w2] by simp
qed

text \<open>
  Claim C9 at \<^verbatim>\<open>chain(1, () => { throw "first"; }, () => { throw "second"; })\<close>:
  \<^verbatim>\<open>rejection\<close> is \<^verbatim>\<open>null\<close> after one stage and \<^verbatim>\<open>"first"\<close> after two, after three
  and at the end.
\<close>

theorem rejection_recorded_once_witness:
  "snd (on_error (JStr ''second'')
         \<lparr>results = [JUndefined, JNum 1], rejection = JStr ''first'', world = (),
          calls = [1]\<rparr>)
     = \<lparr>results = [JUndefined, JNum 1], rejection = JStr ''first'', world = (),
        calls = [1]\<rparr> \<and>
   rejection (run_after [JNum 1, JFunction (\<lambda>w. (Throw (JStr ''first''), w)),
                         JFunction (\<lambda>w. (Throw (JStr ''second''), w))] () 1) = JNull \<and>
   rejection (run_after [JNum 1, JFunction (\<lambda>w. (Throw (JStr ''first''), w)),
                         JFunction (\<lambda>w. (Throw (JStr ''second''), w))] () 2)
     = JStr ''first'' \<and>
   rejection (run_after [JNum 1, JFunction (\<lambda>w. (Throw (JStr ''first''), w)),
                         JFunction (\<lambda>w. (Throw (JStr ''second''), w))] () 3)
     = JStr ''first'' \<and>
   rejection (snd (chain [JNum 1, JFunction (\<lambda>w. (Throw (JStr ''first''), w)),
                          JFunction (\<lambda>w. (Throw (JStr ''second''), w))] ()))
     = JStr ''first''"
proof -
  let ?A = "[JNum 1, JFunction (\<lambda>w. (Throw (JStr ''first''), w)),
             JFunction (\<lambda>w. (Throw (JStr ''second''), w))] :: unit jsval list"
  let ?s = "\<lparr>results = [JUndefined, JNum 1], rejection = JStr ''first'', world = (),
             calls = [1]\<rparr> :: unit run"
  have h1: "\<not> is_null (rejection ?s)" by simp
  have h2: "(2::nat) \<le> 3 \<and> \<not> is_null (rejection (run_after ?A () 2))"
    by (simp add: run_after_def chain_loop_def chain_stage_def promise_then_def
        promise_catch_def on_result_def on_error_def init_def Promise_reject_def Let_def)
  have h3: "arg_values ?A = [JNum 1] @ JFunction (\<lambda>w. (Throw (JStr ''first''), w)) #
              [JFunction (\<lambda>w. (Throw (JStr ''second''), w))] \<and>
            steps_succeed [JNum 1 :: unit jsval] () = Some ([JNum 1], ()) \<and>
            step_outcome (JFunction (\<lambda>w. (Throw (JStr ''first''), w))) ()
              = (Rejected (JStr ''first''), ())"
    by (simp add: step_outcome_def)
  from rejection_recorded_once
    [of ?s "JStr ''second''" 2 3 ?A "()" "[JNum 1]"
        "JFunction (\<lambda>w. (Throw (JStr ''first''), w))"
        "[JFunction (\<lambda>w. (Throw (JStr ''second''), w))]" "[JNum 1]" "()"
        "JStr ''first''" "()"] h1 h2 h3
  show ?thesis by (simp add: recorded_def)
qed

end
